theory Spec2Isabelle
  imports Main "HOL-Library.Sublist"
begin

section \<open>Python text and the regular expressions of the script\<close>

text \<open>
  A Python \<open>str\<close> is modelled as a \<open>string\<close>, one \<open>char\<close> per code point; the model
  covers text whose code points are below 256. Python's \<open>sub in s\<close> on strings is
  \<open>sublist sub s\<close>, and \<open>s.startswith(p)\<close> is \<open>prefix p s\<close>.
\<close>

abbreviation (input) NL :: char where "NL \<equiv> CHR 0x0A"
abbreviation (input) DQ :: char where "DQ \<equiv> CHR 0x22"
abbreviation (input) SQ :: char where "SQ \<equiv> CHR 0x27"
abbreviation (input) BSL :: char where "BSL \<equiv> CHR 0x5C"

text \<open>
  The characters for which \<open>str.isspace\<close> holds (the class \<open>\s\<close> of a \<open>str\<close> pattern),
  among the code points below 256.
\<close>

definition py_space :: "char list" where
  "py_space = [CHR 0x09, NL, CHR 0x0B, CHR 0x0C, CHR 0x0D, CHR 0x1C, CHR 0x1D, CHR 0x1E,
               CHR 0x1F, CHR 0x20, CHR 0x85, CHR 0xA0]"

definition ascii_lower :: "char \<Rightarrow> char" where
  "ascii_lower c =
     (case map_of (zip ''ABCDEFGHIJKLMNOPQRSTUVWXYZ'' ''abcdefghijklmnopqrstuvwxyz'') c of
        Some l \<Rightarrow> l | None \<Rightarrow> c)"

text \<open>
  The patterns of the script are sequences of single-character atoms, each taken once
  or under \<open>?\<close>, \<open>*\<close> or \<open>+\<close> (all greedy), with capture groups and the anchor \<open>$\<close>.
  \<open>LitI\<close> is a literal compiled under \<open>re.IGNORECASE\<close>; \<open>NoneOfS cs\<close> is the class
  \<open>[^\s...]\<close>; \<open>AnyChar\<close> is the dot (everything but a newline).
\<close>

datatype cclass = Lit char | LitI char | OneOf "char list" | NoneOf "char list"
  | NoneOfS "char list" | AnyChar

fun cmatch :: "cclass \<Rightarrow> char \<Rightarrow> bool" where
  "cmatch (Lit c) x = (x = c)"
| "cmatch (LitI c) x = (ascii_lower x = ascii_lower c)"
| "cmatch (OneOf cs) x = (x \<in> set cs)"
| "cmatch (NoneOf cs) x = (x \<notin> set cs)"
| "cmatch (NoneOfS cs) x = (x \<notin> set py_space \<and> x \<notin> set cs)"
| "cmatch AnyChar x = (x \<noteq> NL)"

datatype item = One cclass | Opt cclass | Star cclass | Plus cclass
  | GOpen | GClose | Eol | EndZ

text \<open>
  The backtracking matcher, anchored at the start of its input: it returns the text
  consumed by each item of the pattern, for the first successful alternative in the
  order a backtracking engine tries them (a greedy repetition first takes as many
  characters as it can and gives them back one at a time). \<open>Eol\<close> is \<open>$\<close>: the end
  of the text, or just before a newline that ends the text. \<open>EndZ\<close> is \<open>\Z\<close>.
\<close>

fun bt :: "item list \<Rightarrow> string \<Rightarrow> string list option" where
  "bt [] s = Some []"
| "bt (One c # r) [] = None"
| "bt (One c # r) (x # xs) =
     (if cmatch c x then map_option ((#) [x]) (bt r xs) else None)"
| "bt (Opt c # r) [] = map_option ((#) []) (bt r [])"
| "bt (Opt c # r) (x # xs) =
     (if cmatch c x
      then (case bt r xs of
              Some ps \<Rightarrow> Some ([x] # ps)
            | None \<Rightarrow> map_option ((#) []) (bt r (x # xs)))
      else map_option ((#) []) (bt r (x # xs)))"
| "bt (Star c # r) [] = map_option ((#) []) (bt r [])"
| "bt (Star c # r) (x # xs) =
     (if cmatch c x
      then (case bt (Star c # r) xs of
              Some (p # ps) \<Rightarrow> Some ((x # p) # ps)
            | _ \<Rightarrow> map_option ((#) []) (bt r (x # xs)))
      else map_option ((#) []) (bt r (x # xs)))"
| "bt (Plus c # r) [] = None"
| "bt (Plus c # r) (x # xs) =
     (if cmatch c x
      then (case bt (Star c # r) xs of
              Some (p # ps) \<Rightarrow> Some ((x # p) # ps)
            | _ \<Rightarrow> None)
      else None)"
| "bt (GOpen # r) s = map_option ((#) []) (bt r s)"
| "bt (GClose # r) s = map_option ((#) []) (bt r s)"
| "bt (Eol # r) s = (if s = [] \<or> s = [NL] then map_option ((#) []) (bt r s) else None)"
| "bt (EndZ # r) s = (if s = [] then map_option ((#) []) (bt r s) else None)"

text \<open>The text of the capture groups, in the order of their opening parentheses.\<close>

fun upto_close :: "item list \<Rightarrow> string list \<Rightarrow> string" where
  "upto_close (GClose # r) ps = []"
| "upto_close (i # r) (p # ps) = p @ upto_close r ps"
| "upto_close r ps = []"

fun groups :: "item list \<Rightarrow> string list \<Rightarrow> string list" where
  "groups (GOpen # r) (p # ps) = upto_close r ps # groups r ps"
| "groups (i # r) (p # ps) = groups r ps"
| "groups r ps = []"

text \<open>
  \<open>re.search\<close>: the leftmost position at which the pattern matches, with the match.
  The end of the text is a position too.
\<close>

fun re_search :: "item list \<Rightarrow> string \<Rightarrow> (nat \<times> string list) option" where
  "re_search r [] = map_option (Pair 0) (bt r [])"
| "re_search r (x # xs) =
     (case bt r (x # xs) of
        Some ps \<Rightarrow> Some (0, ps)
      | None \<Rightarrow> map_option (\<lambda>(i, ps). (Suc i, ps)) (re_search r xs))"

text \<open>
  The successive non-overlapping matches that \<open>re.findall\<close> and \<open>re.sub\<close> visit, from
  left to right: after a match the scan resumes at its end. (After an empty match the
  scan moves on by one character; no pattern of the script matches the empty text.)
\<close>

fun re_matches :: "item list \<Rightarrow> string \<Rightarrow> string list list" where
  "re_matches r [] = (case bt r [] of Some ps \<Rightarrow> [ps] | None \<Rightarrow> [])"
| "re_matches r (x # xs) =
     (case bt r (x # xs) of
        None \<Rightarrow> re_matches r xs
      | Some ps \<Rightarrow> ps # re_matches r (drop (length (concat ps) - 1) xs))"

text \<open>
  \<open>re.sub\<close> with the replacement given as a function of the match: the text between
  matches is copied, each match is replaced.
\<close>

fun re_sub :: "item list \<Rightarrow> (string list \<Rightarrow> string) \<Rightarrow> string \<Rightarrow> string" where
  "re_sub r f [] = (case bt r [] of Some ps \<Rightarrow> f ps | None \<Rightarrow> [])"
| "re_sub r f (x # xs) =
     (case bt r (x # xs) of
        None \<Rightarrow> x # re_sub r f xs
      | Some ps \<Rightarrow>
          if concat ps = [] then f ps @ x # re_sub r f xs
          else f ps @ re_sub r f (drop (length (concat ps) - 1) xs))"

definition lits :: "string \<Rightarrow> item list" where
  "lits s = map (\<lambda>c. One (Lit c)) s"

definition litsI :: "string \<Rightarrow> item list" where
  "litsI s = map (\<lambda>c. One (LitI c)) s"


section \<open>Discovery: \<open>extract_m3u8_from_page\<close>\<close>

datatype stream = Stdout | Stderr

datatype exc = PageError | FileError | TemplateError | ValueError

text \<open>
  What the script prints: a line of text on one of the two streams, or the line
  \<open>Error updating m3u file: {e}\<close> on the error stream.
\<close>

datatype printed = Line stream string | ErrorUpdating exc

text \<open>
  \<open>handle_request\<close> is the observer registered with \<open>page.on("request", ...)\<close>; the list
  \<open>m3u8_urls\<close> it appends to is passed in and returned.
\<close>

definition handle_request :: "string list \<Rightarrow> string \<Rightarrow> string list" where
  "handle_request m3u8_urls request_url =
     (if sublist ''.m3u8'' request_url then m3u8_urls @ [request_url] else m3u8_urls)"

definition url_class :: cclass where
  "url_class = NoneOfS [DQ, SQ, CHR ''<'', CHR ''>'']"

text \<open>The three patterns of the content scan, compiled with \<open>re.IGNORECASE\<close>.\<close>

definition pattern_bare :: "item list" where
  "pattern_bare =
     litsI ''http'' @ [Opt (LitI (CHR ''s''))] @ litsI ''://'' @ [Plus url_class]
     @ litsI ''.m3u8'' @ [Star url_class]"

definition pattern_quoted :: "char \<Rightarrow> item list" where
  "pattern_quoted q =
     [One (LitI q), GOpen] @ litsI ''http'' @ [Opt (LitI (CHR ''s''))] @ litsI ''://''
     @ [Plus (NoneOf [q])] @ litsI ''.m3u8'' @ [Star (NoneOf [q]), GClose, One (LitI q)]"

definition patterns :: "item list list" where
  "patterns = [pattern_bare, pattern_quoted DQ, pattern_quoted SQ]"

text \<open>
  \<open>re.findall\<close> for a pattern with at most one group: the text of the group if there
  is one, of the whole match otherwise.
\<close>

definition re_findall :: "item list \<Rightarrow> string \<Rightarrow> string list" where
  "re_findall r s =
     map (\<lambda>ps. case groups r ps of [] \<Rightarrow> concat ps | g # _ \<Rightarrow> g) (re_matches r s)"

definition trailing :: "item list" where
  "trailing = [Plus (OneOf [DQ, SQ, CHR '','', CHR '';'', CHR '')'', CHR '']'', CHR ''}'']), Eol]"

definition trim :: "string \<Rightarrow> string" where
  "trim url_match = re_sub trailing (\<lambda>ps. []) url_match"

definition add_match :: "string list \<Rightarrow> string \<Rightarrow> string list" where
  "add_match m3u8_urls m =
     (let url_match = trim m
      in if url_match \<in> set m3u8_urls then m3u8_urls else m3u8_urls @ [url_match])"

definition scan_content :: "string \<Rightarrow> string list \<Rightarrow> string list" where
  "scan_content content m3u8_urls =
     foldl (\<lambda>urls pattern. foldl add_match urls (re_findall pattern content))
       m3u8_urls patterns"

text \<open>The choice among the candidates (the end of \<open>extract_m3u8_from_page\<close>).\<close>

definition select_url :: "string list \<Rightarrow> string option \<Rightarrow> string option" where
  "select_url m3u8_urls preferred_domain =
     (case m3u8_urls of
        [] \<Rightarrow> None
      | first # _ \<Rightarrow>
          (case preferred_domain of
             None \<Rightarrow> Some first
           | Some d \<Rightarrow>
               if d = [] then Some first
               else (case find (sublist d) m3u8_urls of
                       Some url \<Rightarrow> Some url
                     | None \<Rightarrow> Some first)))"

text \<open>
  One visit of a page. \<open>requests\<close> are the URLs of the requests the observer is called
  with, in order; \<open>load\<close> is what navigation and \<open>page.content()\<close> do: the rendered
  content, a Playwright timeout, or another exception, which the function does not
  catch. The observer is taken to have run before the content is scanned.
\<close>

datatype page_load = Loaded string | TimedOut | Failed

definition found :: "printed list \<Rightarrow> string list \<Rightarrow> string option
    \<Rightarrow> printed list \<times> (exc + string option)" where
  "found out m3u8_urls preferred_domain =
     (case select_url m3u8_urls preferred_domain of
        Some url \<Rightarrow> (out @ [Line Stdout (''Found m3u8 link: '' @ url)], Inr (Some url))
      | None \<Rightarrow> (out @ [Line Stdout ''No m3u8 link found''], Inr None))"

definition extract_m3u8_from_page :: "string \<Rightarrow> string option \<Rightarrow> string list \<Rightarrow> page_load
    \<Rightarrow> printed list \<times> (exc + string option)" where
  "extract_m3u8_from_page url preferred_domain requests load =
     (let m3u8_urls = foldl handle_request [] requests;
          out = [Line Stdout ''Launching browser to fetch dynamic content...'',
                 Line Stdout (''Navigating to: '' @ url)]
                @ map (\<lambda>u. Line Stdout (''Captured m3u8 URL: '' @ u)) m3u8_urls
      in case load of
           Loaded content \<Rightarrow> found out (scan_content content m3u8_urls) preferred_domain
         | TimedOut \<Rightarrow>
             found (out @ [Line Stderr ''Timeout while loading page'']) m3u8_urls
               preferred_domain
         | Failed \<Rightarrow> (out, Inl PageError))"

section \<open>\<open>urllib.parse\<close> and \<open>strip_url_parameters\<close>\<close>

text \<open>
  \<open>urlparse\<close> and \<open>urlunparse\<close> as in the standard library of CPython 3.11, on \<open>str\<close>
  arguments with the default \<open>scheme=''\<close> and \<open>allow_fragments=True\<close>. Two library checks
  are not recomputed here. The check of a non-ASCII network location under NFKC
  normalisation never rejects a text whose code points are below 256, so it is left
  out. The validation of a bracketed host by \<open>ipaddress.ip_address\<close> is the parameter
  \<open>is_ipv6\<close>: whether the host is accepted as an IPv6 address.
\<close>

definition uses_netloc :: "string list" where
  "uses_netloc = ['''', ''ftp'', ''http'', ''gopher'', ''nntp'', ''telnet'',
                  ''imap'', ''wais'', ''file'', ''mms'', ''https'', ''shttp'',
                  ''snews'', ''prospero'', ''rtsp'', ''rtsps'', ''rtspu'', ''rsync'',
                  ''svn'', ''svn+ssh'', ''sftp'', ''nfs'', ''git'', ''git+ssh'',
                  ''ws'', ''wss'']"

definition uses_params :: "string list" where
  "uses_params = ['''', ''ftp'', ''hdl'', ''prospero'', ''http'', ''imap'',
                  ''https'', ''shttp'', ''rtsp'', ''rtsps'', ''rtspu'', ''sip'',
                  ''sips'', ''mms'', ''sftp'', ''tel'']"

definition ascii_letters :: string where
  "ascii_letters = ''abcdefghijklmnopqrstuvwxyzABCDEFGHIJKLMNOPQRSTUVWXYZ''"

definition scheme_chars :: string where
  "scheme_chars = ascii_letters @ ''0123456789'' @ ''+-.''"

definition c0_control_or_space :: "char \<Rightarrow> bool" where
  "c0_control_or_space c = ((of_char c :: nat) \<le> 0x20)"

definition unsafe_url_bytes :: string where
  "unsafe_url_bytes = [CHR 0x09, CHR 0x0D, NL]"

text \<open>\<open>s.partition(c)\<close>: the text before the first \<open>c\<close> and the text after it.\<close>

definition before :: "char \<Rightarrow> string \<Rightarrow> string" where
  "before c s = takeWhile (\<lambda>x. x \<noteq> c) s"

definition after :: "char \<Rightarrow> string \<Rightarrow> string" where
  "after c s = drop 1 (dropWhile (\<lambda>x. x \<noteq> c) s)"

definition ipvfuture :: "item list" where
  "ipvfuture = [One (Lit (CHR ''v'')), Plus (OneOf ''abcdefABCDEF0123456789''),
                One (Lit (CHR ''.'')), Plus AnyChar, EndZ]"

definition check_bracketed_host :: "(string \<Rightarrow> bool) \<Rightarrow> string \<Rightarrow> bool" where
  "check_bracketed_host is_ipv6 hostname =
     (if prefix ''v'' hostname then bt ipvfuture hostname \<noteq> None else is_ipv6 hostname)"

definition splitnetloc :: "string \<Rightarrow> string \<times> string" where
  "splitnetloc url =
     (takeWhile (\<lambda>c. c \<notin> set ''/?#'') (drop 2 url),
      dropWhile (\<lambda>c. c \<notin> set ''/?#'') (drop 2 url))"

definition split_scheme :: "string \<Rightarrow> string \<times> string" where
  "split_scheme url =
     (case before (CHR '':'') url of
        [] \<Rightarrow> ('''', url)
      | c # cs \<Rightarrow>
          if CHR '':'' \<in> set url \<and> c \<in> set ascii_letters
             \<and> (\<forall>x \<in> set (c # cs). x \<in> set scheme_chars)
          then (map ascii_lower (c # cs), after (CHR '':'') url)
          else ('''', url))"

definition urlsplit :: "(string \<Rightarrow> bool) \<Rightarrow> string
    \<Rightarrow> exc + string \<times> string \<times> string \<times> string \<times> string" where
  "urlsplit is_ipv6 url0 =
     (let url1 = filter (\<lambda>c. c \<notin> set unsafe_url_bytes) (dropWhile c0_control_or_space url0);
          (scheme, url2) = split_scheme url1;
          (netloc, url3) = (if take 2 url2 = ''//'' then splitnetloc url2 else ('''', url2));
          lb = CHR ''['' \<in> set netloc;
          rb = CHR '']'' \<in> set netloc
      in if (lb \<and> \<not> rb) \<or> (rb \<and> \<not> lb) then Inl ValueError
         else if lb \<and> rb
                 \<and> \<not> check_bracketed_host is_ipv6 (before (CHR '']'') (after (CHR ''['') netloc))
         then Inl ValueError
         else
           let (url4, fragment) = (if CHR ''#'' \<in> set url3
                                   then (before (CHR ''#'') url3, after (CHR ''#'') url3)
                                   else (url3, ''''));
               (url5, query) = (if CHR ''?'' \<in> set url4
                                then (before (CHR ''?'') url4, after (CHR ''?'') url4)
                                else (url4, ''''))
           in Inr (scheme, netloc, url5, query, fragment))"

text \<open>
  \<open>_splitparams\<close>. \<open>url.rfind('/')\<close> is the index of the last slash; an index of \<open>-1\<close>
  from \<open>find\<close> would slice \<open>url[:-1]\<close> and \<open>url[0:]\<close>.
\<close>

definition rfind_slash :: "string \<Rightarrow> nat" where
  "rfind_slash url = length url - Suc (length (takeWhile (\<lambda>c. c \<noteq> CHR ''/'') (rev url)))"

definition splitparams :: "string \<Rightarrow> string \<times> string" where
  "splitparams url =
     (if CHR ''/'' \<in> set url
      then (let k = rfind_slash url
            in if CHR '';'' \<in> set (drop k url)
               then (let i = k + length (before (CHR '';'') (drop k url))
                     in (take i url, drop (Suc i) url))
               else (url, ''''))
      else if CHR '';'' \<in> set url
           then (before (CHR '';'') url, after (CHR '';'') url)
           else (butlast url, url))"

definition urlunsplit :: "string \<times> string \<times> string \<times> string \<times> string \<Rightarrow> string" where
  "urlunsplit components =
     (case components of (scheme, netloc, url, query, fragment) \<Rightarrow>
        let url = (if netloc \<noteq> [] \<or> (scheme \<noteq> [] \<and> scheme \<in> set uses_netloc)
                      \<or> take 2 url = ''//''
                   then ''//'' @ netloc
                        @ (if url \<noteq> [] \<and> take 1 url \<noteq> ''/'' then ''/'' @ url else url)
                   else url);
            url = (if scheme \<noteq> [] then scheme @ '':'' @ url else url);
            url = (if query \<noteq> [] then url @ ''?'' @ query else url);
            url = (if fragment \<noteq> [] then url @ ''#'' @ fragment else url)
        in url)"

definition urlunparse :: "string \<times> string \<times> string \<times> string \<times> string \<times> string
    \<Rightarrow> string" where
  "urlunparse components =
     (case components of (scheme, netloc, url, params, query, fragment) \<Rightarrow>
        urlunsplit (scheme, netloc, (if params \<noteq> [] then url @ '';'' @ params else url),
                    query, fragment))"

record parse_result =
  scheme :: string
  netloc :: string
  path :: string
  params :: string
  query :: string
  fragment :: string

definition urlparse :: "(string \<Rightarrow> bool) \<Rightarrow> string \<Rightarrow> exc + parse_result" where
  "urlparse is_ipv6 url =
     (case urlsplit is_ipv6 url of
        Inl e \<Rightarrow> Inl e
      | Inr (scheme0, netloc0, url, query0, fragment0) \<Rightarrow>
          let (url, params0) = (if scheme0 \<in> set uses_params \<and> CHR '';'' \<in> set url
                               then splitparams url else (url, ''''))
          in Inr \<lparr>scheme = scheme0, netloc = netloc0, path = url, params = params0,
                  query = query0, fragment = fragment0\<rparr>)"

definition strip_url_parameters :: "(string \<Rightarrow> bool) \<Rightarrow> string \<Rightarrow> exc + string" where
  "strip_url_parameters is_ipv6 url =
     (case urlparse is_ipv6 url of
        Inl e \<Rightarrow> Inl e
      | Inr parsed \<Rightarrow>
          Inr (urlunparse (scheme parsed, netloc parsed, path parsed, '''', '''', '''')))"

section \<open>Patching the playlist: \<open>update_m3u_file\<close>\<close>

text \<open>
  The pattern \<open>(#EXTINF:[^\n]*,NAME\n)(https?://[^\n]+)\<close>, where \<open>NAME\<close> is
  \<open>re.escape(entry_name)\<close>: it matches the characters of \<open>entry_name\<close> literally.
\<close>

definition entry_pattern :: "string \<Rightarrow> item list" where
  "entry_pattern entry_name =
     [GOpen] @ lits ''#EXTINF:'' @ [Star (NoneOf [NL])] @ lits '','' @ lits entry_name
     @ lits [NL] @ [GClose, GOpen] @ lits ''http'' @ [Opt (Lit (CHR ''s''))] @ lits ''://''
     @ [Plus (NoneOf [NL])] @ [GClose]"

text \<open>
  The replacement template of \<open>re.sub\<close>, as \<open>re._parser.parse_template\<close> of CPython 3.11
  reads it. The tokenizer takes a backslash together with the character after it; a
  backslash at the very end is an error. An escape is a group reference, an octal
  character code, one of the control-character escapes, an error (another ASCII letter),
  or stands for itself. Every error of the template, whatever its message, is \<open>None\<close>.
\<close>

datatype part = Literal string | Group nat

fun tokenize :: "string \<Rightarrow> string list option" where
  "tokenize [] = Some []"
| "tokenize [c] = (if c = BSL then None else Some [[c]])"
| "tokenize (c # d # cs) =
     (if c = BSL then map_option ((#) [c, d]) (tokenize cs)
      else map_option ((#) [c]) (tokenize (d # cs)))"

definition digit_val :: "char \<Rightarrow> nat option" where
  "digit_val c = map_of (zip ''0123456789'' [0 ..< 10]) c"

definition is_digit :: "string \<Rightarrow> bool" where
  "is_digit t = (case t of [c] \<Rightarrow> c \<in> set ''0123456789'' | _ \<Rightarrow> False)"

definition is_octdigit :: "string \<Rightarrow> bool" where
  "is_octdigit t = (case t of [c] \<Rightarrow> c \<in> set ''01234567'' | _ \<Rightarrow> False)"

text \<open>\<open>int(digits, base)\<close> for a text of digits below the base.\<close>

definition int_of :: "nat \<Rightarrow> string \<Rightarrow> nat" where
  "int_of base ds = foldl (\<lambda>a c. base * a + (case digit_val c of Some v \<Rightarrow> v | None \<Rightarrow> 0)) 0 ds"

text \<open>
  \<open>int(name)\<close> for the name of \<open>\g<name>\<close>, where it is not negative: surrounding
  whitespace, a sign, then decimal digits, single underscores allowed between digits.
\<close>

fun int_body :: "string \<Rightarrow> string option" where
  "int_body [] = Some []"
| "int_body [c] = (if is_digit [c] then Some [c] else None)"
| "int_body (c # d # cs) =
     (if is_digit [c] then map_option ((#) c) (int_body (d # cs))
      else if c = CHR ''_'' \<and> is_digit [d] then int_body (d # cs)
      else None)"

definition py_strip :: "string \<Rightarrow> string" where
  "py_strip s =
     rev (dropWhile (\<lambda>c. c \<in> set py_space) (rev (dropWhile (\<lambda>c. c \<in> set py_space) s)))"

definition group_index :: "string \<Rightarrow> nat option" where
  "group_index name =
     (let s = py_strip name;
          (negative, body) = (case s of
                                c # cs \<Rightarrow> if c = CHR ''-'' then (True, cs)
                                          else if c = CHR ''+'' then (False, cs)
                                          else (False, s)
                              | [] \<Rightarrow> (False, s))
      in case body of
           [] \<Rightarrow> None
         | c # _ \<Rightarrow>
             if \<not> is_digit [c] then None
             else (case int_body body of
                     None \<Rightarrow> None
                   | Some ds \<Rightarrow>
                       if negative \<and> int_of 10 ds \<noteq> 0 then None else Some (int_of 10 ds)))"

definition escapes :: "(char \<times> char) list" where
  "escapes = [(CHR ''a'', CHR 0x07), (CHR ''b'', CHR 0x08), (CHR ''f'', CHR 0x0C),
              (CHR ''n'', NL), (CHR ''r'', CHR 0x0D), (CHR ''t'', CHR 0x09),
              (CHR ''v'', CHR 0x0B), (BSL, BSL)]"

text \<open>
  \<open>parse_toks n ts\<close> reads the tokens \<open>ts\<close> of a template for a pattern with \<open>n\<close>
  groups. The name of \<open>\g<name>\<close> runs to the next \<open>>\<close> and must not be empty.
\<close>

function parse_toks :: "nat \<Rightarrow> string list \<Rightarrow> part list option" where
  "parse_toks n [] = Some []"
| "parse_toks n (t # ts) =
     (case t of
        [c] \<Rightarrow> map_option ((#) (Literal [c])) (parse_toks n ts)
      | [b, c] \<Rightarrow>
          if c = CHR ''g'' then
            (case ts of
               [] \<Rightarrow> None
             | lt # ts1 \<Rightarrow>
                 if lt \<noteq> ''<'' then None
                 else if ''>'' \<notin> set ts1 \<or> takeWhile (\<lambda>x. x \<noteq> ''>'') ts1 = [] then None
                 else (case group_index (concat (takeWhile (\<lambda>x. x \<noteq> ''>'') ts1)) of
                         None \<Rightarrow> None
                       | Some k \<Rightarrow>
                           if k > n then None
                           else map_option ((#) (Group k))
                                  (parse_toks n (drop 1 (dropWhile (\<lambda>x. x \<noteq> ''>'') ts1)))))
          else if c = CHR ''0'' then
            (let ds = takeWhile is_octdigit (take 2 ts)
             in map_option ((#) (Literal [char_of (int_of 8 (concat ds) mod 256)]))
                  (parse_toks n (drop (length ds) ts)))
          else if is_digit [c] then
            (if is_octdigit [c] \<and> length (takeWhile is_octdigit (take 2 ts)) = 2 then
               (let v = int_of 8 (c # concat (take 2 ts))
                in if v > 255 then None
                   else map_option ((#) (Literal [char_of v])) (parse_toks n (drop 2 ts)))
             else
               (let ds = takeWhile is_digit (take 1 ts);
                    k = int_of 10 (c # concat ds)
                in if k > n then None
                   else map_option ((#) (Group k)) (parse_toks n (drop (length ds) ts))))
          else
            (case map_of escapes c of
               Some e \<Rightarrow> map_option ((#) (Literal [e])) (parse_toks n ts)
             | None \<Rightarrow>
                 if c \<in> set ascii_letters then None
                 else map_option ((#) (Literal [b, c])) (parse_toks n ts))
      | _ \<Rightarrow> None)"
  by pat_completeness auto
termination
  apply (relation "measure (\<lambda>(n, ts). length ts)")
       apply auto
  apply (rule le_less_trans [OF diff_le_self])
  apply (rule le_less_trans [OF length_dropWhile_le])
  apply simp
  done

definition parse_template :: "nat \<Rightarrow> string \<Rightarrow> part list option" where
  "parse_template n source =
     (case tokenize source of None \<Rightarrow> None | Some ts \<Rightarrow> parse_toks n ts)"

text \<open>\<open>m.group(k)\<close>: group 0 is the whole match.\<close>

definition group :: "item list \<Rightarrow> string list \<Rightarrow> nat \<Rightarrow> string" where
  "group r ps k =
     (case k of
        0 \<Rightarrow> concat ps
      | Suc j \<Rightarrow> (case drop j (groups r ps) of g # _ \<Rightarrow> g | [] \<Rightarrow> []))"

definition expand_template :: "item list \<Rightarrow> part list \<Rightarrow> string list \<Rightarrow> string" where
  "expand_template r template ps =
     concat (map (\<lambda>p. case p of Literal s \<Rightarrow> s | Group k \<Rightarrow> group r ps k) template)"

text \<open>
  The file is its text, as \<open>read_text\<close> returns it and \<open>write_text\<close> stores it. Either
  call may raise; \<open>fault\<close> says which one does. Any exception inside the \<open>try\<close> block is
  printed and ends the process with status 1. The result is what the call does (it
  returns, or the process exits), the text of the file afterwards (a write that raises
  is taken to leave the file as it was) and what was printed.
\<close>

datatype io_fault = NoFault | ReadFails | WriteFails

datatype outcome = Returned bool | Exit nat

definition update_m3u_file :: "io_fault \<Rightarrow> string \<Rightarrow> string \<Rightarrow> string
    \<Rightarrow> outcome \<times> string \<times> printed list" where
  "update_m3u_file fault content new_url entry_name =
     (if fault = ReadFails then (Exit 1, content, [ErrorUpdating FileError])
      else
        let pattern = entry_pattern entry_name
        in case re_search pattern content of
             None \<Rightarrow>
               (Returned False, content,
                [Line Stderr (''Entry '' @ [DQ] @ entry_name @ [DQ]
                              @ '' not found in the m3u file'')])
           | Some (i, m) \<Rightarrow>
               let old_url = group pattern m 2
               in if old_url = new_url
                  then (Returned False, content, [Line Stdout (''URL unchanged: '' @ new_url)])
                  else
                    (case parse_template 2 (BSL # ''g<1>'' @ new_url) of
                       None \<Rightarrow> (Exit 1, content, [ErrorUpdating TemplateError])
                     | Some template \<Rightarrow>
                         let new_content =
                               re_sub pattern (expand_template pattern template) content
                         in if fault = WriteFails
                            then (Exit 1, content, [ErrorUpdating FileError])
                            else (Returned True, new_content,
                                  [Line Stdout (''Updated '' @ entry_name @ '' URL:''),
                                   Line Stdout (''  Old: '' @ old_url),
                                   Line Stdout (''  New: '' @ new_url)])))"

text \<open>
  The playlist as \<open>create_output\<close> of the updater application writes it: a header, then
  per channel a metadata line that ends with the name, the link and a blank line.
\<close>

definition create_output :: "(string \<times> string) list \<Rightarrow> string" where
  "create_output channels =
     ''#EXTM3U'' @ [NL, NL]
     @ concat (map (\<lambda>(name, link). ''#EXTINF:-1,'' @ name @ [NL] @ link @ [NL, NL]) channels)"

text \<open>
  Notions for the analysis of \<open>urlparse\<close>. \<open>clean\<close> is the text after the leading
  characters are stripped and the unsafe ones removed; \<open>netloc_split\<close>, \<open>path_of\<close> and
  \<open>deparam\<close> are the steps that take the network location, the path and the path
  without its parameters; \<open>brackets_ok\<close> is the outcome of the checks on brackets.
  \<open>slashed\<close> is the path as \<open>urlunsplit\<close> writes it, and \<open>wf_parts\<close> collects what holds
  of every scheme, network location and path that \<open>urlparse\<close> returns.
\<close>

definition clean :: "string \<Rightarrow> string" where
  "clean url0 = filter (\<lambda>c. c \<notin> set unsafe_url_bytes) (dropWhile c0_control_or_space url0)"

definition valid_scheme :: "string \<Rightarrow> bool" where
  "valid_scheme s \<longleftrightarrow> s \<noteq> [] \<and> hd s \<in> set ascii_letters \<and> (\<forall>x\<in>set s. x \<in> set scheme_chars)
     \<and> map ascii_lower s = s"

definition brackets_ok :: "(string \<Rightarrow> bool) \<Rightarrow> string \<Rightarrow> bool" where
  "brackets_ok is_ipv6 n \<longleftrightarrow>
     (CHR ''['' \<in> set n \<longleftrightarrow> CHR '']'' \<in> set n)
     \<and> (CHR ''['' \<in> set n \<and> CHR '']'' \<in> set n
          \<longrightarrow> check_bracketed_host is_ipv6 (before (CHR '']'') (after (CHR ''['') n)))"

definition netloc_split :: "string \<Rightarrow> string \<times> string" where
  "netloc_split u = (if take 2 u = ''//'' then splitnetloc u else ('''', u))"

definition path_of :: "string \<Rightarrow> string" where
  "path_of u = before (CHR ''?'') (before (CHR ''#'') u)"

definition deparam :: "string \<Rightarrow> string \<Rightarrow> string" where
  "deparam s p = (if s \<in> set uses_params \<and> CHR '';'' \<in> set p then fst (splitparams p) else p)"

definition no_params :: "string \<Rightarrow> bool" where
  "no_params p \<longleftrightarrow>
     (CHR '';'' \<in> set p \<longrightarrow> CHR ''/'' \<in> set p \<and> CHR '';'' \<notin> set (drop (rfind_slash p) p))"

definition wf_parts :: "(string \<Rightarrow> bool) \<Rightarrow> string \<Rightarrow> string \<Rightarrow> string \<Rightarrow> bool" where
  "wf_parts is_ipv6 s n p \<longleftrightarrow>
     (\<forall>c\<in>set (s @ n @ p). c \<notin> set unsafe_url_bytes)
     \<and> (s = [] \<or> valid_scheme s)
     \<and> (\<forall>c\<in>set n. c \<notin> set ''/?#'')
     \<and> CHR ''?'' \<notin> set p \<and> CHR ''#'' \<notin> set p
     \<and> (n \<noteq> [] \<longrightarrow> p = [] \<or> hd p = CHR ''/'')
     \<and> brackets_ok is_ipv6 n
     \<and> (s \<in> set uses_params \<longrightarrow> no_params p)
     \<and> (s = [] \<and> n = [] \<longrightarrow> p = [] \<or> hd p = CHR ''/''
           \<or> (split_scheme p = ([], p) \<and> \<not> c0_control_or_space (hd p) \<and> take 2 p \<noteq> ''//''))"

definition slashed :: "string \<Rightarrow> string \<Rightarrow> string \<Rightarrow> string" where
  "slashed s n p =
     (if (n \<noteq> [] \<or> (s \<noteq> [] \<and> s \<in> set uses_netloc) \<or> take 2 p = ''//'')
         \<and> p \<noteq> [] \<and> take 1 p \<noteq> ''/''
      then ''/'' @ p else p)"









text \<open>
  The candidate list of one visit under any sequence of calls: a request reported to
  the observer, or a scan of some content. \<open>requests_fresh\<close> holds of a sequence in which
  no request is reported while its URL is already in the list.
\<close>

datatype call = Request string | Scan string

fun collector_step :: "string list \<Rightarrow> call \<Rightarrow> string list" where
  "collector_step m3u8_urls (Request request_url) = handle_request m3u8_urls request_url"
| "collector_step m3u8_urls (Scan content) = scan_content content m3u8_urls"

definition collect :: "call list \<Rightarrow> string list" where
  "collect calls = foldl collector_step [] calls"

fun requests_fresh :: "string list \<Rightarrow> call list \<Rightarrow> bool" where
  "requests_fresh m3u8_urls [] = True"
| "requests_fresh m3u8_urls (c # cs) =
     ((case c of Request request_url \<Rightarrow> request_url \<notin> set m3u8_urls | Scan content \<Rightarrow> True)
      \<and> requests_fresh (collector_step m3u8_urls c) cs)"

text \<open>The manifest address used as the example of a page with an embedded literal.\<close>

definition example_url :: string where
  "example_url = ''https://cdn.example.com/stream.m3u8?tok=1''"

section \<open>The selection policy\<close>

lemma find_first: "P u \<Longrightarrow> \<forall>v\<in>set pre. \<not> P v \<Longrightarrow> find P (pre @ u # post) = Some u"
  by (induction pre) auto

lemma find_none: "\<forall>v\<in>set cs. \<not> P v \<Longrightarrow> find P cs = None"
  by (induction cs) auto

text \<open>
  Claim C5. The selection returns nothing for an empty candidate list. With a preferred
  domain that occurs in some candidate, it returns the first candidate in list order
  that contains the domain as a substring. With no preference, or with a preference
  that no candidate contains, it returns the first candidate.
\<close>

theorem select_url_first_match:
  "select_url [] pd = None \<and>
   (\<forall>pre u post d. cs = pre @ u # post \<and> pd = Some d \<and> sublist d u
        \<and> (\<forall>v\<in>set pre. \<not> sublist d v) \<longrightarrow> select_url cs pd = Some u) \<and>
   (cs \<noteq> [] \<and> (pd = None \<or> (\<exists>d. pd = Some d \<and> (\<forall>v\<in>set cs. \<not> sublist d v)))
        \<longrightarrow> select_url cs pd = Some (hd cs))"
proof (intro conjI allI impI)
  show "select_url [] pd = None" by (simp add: select_url_def)
next
  fix pre u post d
  assume h: "cs = pre @ u # post \<and> pd = Some d \<and> sublist d u \<and> (\<forall>v\<in>set pre. \<not> sublist d v)"
  then have f: "find (sublist d) cs = Some u" by (simp add: find_first)
  show "select_url cs pd = Some u"
  proof (cases "d = []")
    case True
    with h have "pre = []" by (cases pre) auto
    with h True show ?thesis by (simp add: select_url_def)
  next
    case False
    with h f show ?thesis by (cases pre) (simp_all add: select_url_def)
  qed
next
  assume h: "cs \<noteq> [] \<and> (pd = None \<or> (\<exists>d. pd = Some d \<and> (\<forall>v\<in>set cs. \<not> sublist d v)))"
  then obtain c cs' where cs: "cs = c # cs'" by (cases cs) auto
  from h show "select_url cs pd = Some (hd cs)"
  proof (elim conjE disjE exE)
    assume "pd = None" with cs show ?thesis by (simp add: select_url_def)
  next
    fix d assume "pd = Some d" "\<forall>v\<in>set cs. \<not> sublist d v"
    then have "find (sublist d) cs = None" "pd = Some d" by (simp_all add: find_none)
    with cs show ?thesis by (simp add: select_url_def)
  qed
qed

theorem select_url_first_match_witness:
  "select_url [''http://a/x.m3u8'', ''http://cdn.b/y.m3u8''] (Some ''cdn.b'')
     = Some ''http://cdn.b/y.m3u8''
   \<and> select_url [''http://a/x.m3u8'', ''http://cdn.b/y.m3u8''] None = Some ''http://a/x.m3u8''"
proof -
  have a: "sublist ''cdn.b'' ''http://cdn.b/y.m3u8''" by (simp add: sublist_Cons_right)
  have b: "\<not> sublist ''cdn.b'' ''http://a/x.m3u8''" by (simp add: sublist_Cons_right)
  from select_url_first_match
    [of "Some ''cdn.b''" "[''http://a/x.m3u8'', ''http://cdn.b/y.m3u8'']"]
  have "[''http://a/x.m3u8'', ''http://cdn.b/y.m3u8'']
          = [''http://a/x.m3u8''] @ ''http://cdn.b/y.m3u8'' # []
        \<and> Some ''cdn.b'' = Some ''cdn.b'' \<and> sublist ''cdn.b'' ''http://cdn.b/y.m3u8''
        \<and> (\<forall>v\<in>set [''http://a/x.m3u8'']. \<not> sublist ''cdn.b'' v)
        \<longrightarrow> select_url [''http://a/x.m3u8'', ''http://cdn.b/y.m3u8''] (Some ''cdn.b'')
            = Some ''http://cdn.b/y.m3u8''"
    by blast
  with a b have 1: "select_url [''http://a/x.m3u8'', ''http://cdn.b/y.m3u8''] (Some ''cdn.b'')
      = Some ''http://cdn.b/y.m3u8''"
    by simp
  from select_url_first_match [of None "[''http://a/x.m3u8'', ''http://cdn.b/y.m3u8'']"]
  have 2: "select_url [''http://a/x.m3u8'', ''http://cdn.b/y.m3u8''] None
      = Some ''http://a/x.m3u8''"
    by simp
  from 1 2 show ?thesis by simp
qed

section \<open>The content scan\<close>

lemma lower_ground:
  "ascii_lower (CHR ''h'') = CHR ''h''" "ascii_lower (CHR ''t'') = CHR ''t''"
  "ascii_lower (CHR ''p'') = CHR ''p''" "ascii_lower (CHR ''s'') = CHR ''s''"
  "ascii_lower (CHR '':'') = CHR '':''" "ascii_lower (CHR ''/'') = CHR ''/''"
  "ascii_lower (CHR ''.'') = CHR ''.''" "ascii_lower (CHR ''m'') = CHR ''m''"
  "ascii_lower (CHR ''3'') = CHR ''3''" "ascii_lower (CHR ''u'') = CHR ''u''"
  "ascii_lower (CHR ''8'') = CHR ''8''" "ascii_lower DQ = DQ" "ascii_lower SQ = SQ"
  by (simp_all add: ascii_lower_def)

lemma lower_colon: "(ascii_lower x = CHR '':'') = (x = CHR '':'')"
  by (auto simp: ascii_lower_def split: option.splits if_splits)

lemma lower_dq: "(ascii_lower x = DQ) = (x = DQ)"
  by (auto simp: ascii_lower_def split: option.splits if_splits)

lemma bare_no_colon: "CHR '':'' \<notin> set p \<Longrightarrow> bt pattern_bare (p @ DQ # r) = None"
  unfolding pattern_bare_def litsI_def
  apply (cases p; simp add: lower_ground lower_colon)
  subgoal for a p1
    apply (cases p1; simp add: lower_ground lower_colon)
    subgoal for b p2
      apply (cases p2; simp add: lower_ground lower_colon)
      subgoal for c p3
        apply (cases p3; simp add: lower_ground lower_colon)
        subgoal for d p4
          apply (cases p4; simp add: lower_ground lower_colon)
          subgoal for e p5
            apply (cases p5; auto simp add: lower_ground lower_colon)
            done
          done
        done
      done
    done
  done

lemma matches_skip: "CHR '':'' \<notin> set p \<Longrightarrow> re_matches pattern_bare (p @ DQ # r) = re_matches pattern_bare (DQ # r)"
proof (induction p)
  case Nil then show ?case by simp
next
  case (Cons a p)
  have "bt pattern_bare ((a # p) @ DQ # r) = None" using Cons.prems by (rule bare_no_colon)
  with Cons show ?case by simp
qed

lemma add_match_app: "\<exists>t. add_match urls m = urls @ t"
  by (simp add: add_match_def Let_def)

lemma foldl_add_match_app: "\<exists>t. foldl add_match urls ms = urls @ t"
proof (induction ms arbitrary: urls)
  case Nil show ?case by simp
next
  case (Cons m ms)
  obtain t where "add_match urls m = urls @ t" using add_match_app by blast
  moreover obtain t' where "foldl add_match (urls @ t) ms = (urls @ t) @ t'" using Cons by blast
  ultimately show ?case by simp
qed

lemma scan_fold_app:
  "\<exists>t. foldl (\<lambda>urls pattern. foldl add_match urls (re_findall pattern content)) urls pats = urls @ t"
proof (induction pats arbitrary: urls)
  case Nil show ?case by simp
next
  case (Cons q pats)
  obtain t where t: "foldl add_match urls (re_findall q content) = urls @ t"
    using foldl_add_match_app by blast
  obtain t' where "foldl (\<lambda>urls pattern. foldl add_match urls (re_findall pattern content)) (urls @ t) pats = (urls @ t) @ t'"
    using Cons by blast
  with t show ?case by simp
qed

lemma scan_content_app: "\<exists>t. scan_content content urls = urls @ t"
  unfolding scan_content_def by (rule scan_fold_app)

lemma bare_at_dq: "bt pattern_bare (DQ # r) = None"
  by (simp add: pattern_bare_def litsI_def lower_ground lower_dq)

lemma trim_example: "trim example_url = example_url"
  by (simp add: trim_def trailing_def example_url_def)

lemma bare_at_url:
  "bt pattern_bare (example_url @ DQ # post) =
     Some [''h'', ''t'', ''t'', ''p'', ''s'', '':'', ''/'', ''/'',
           ''cdn.example.com/stream'', ''.'', ''m'', ''3'', ''u'', ''8'', ''?tok=1'']"
  by (simp add: example_url_def pattern_bare_def litsI_def url_class_def py_space_def lower_ground)

lemma matches_at_url:
  "re_matches pattern_bare (DQ # example_url @ DQ # post) =
     [''h'', ''t'', ''t'', ''p'', ''s'', '':'', ''/'', ''/'',
      ''cdn.example.com/stream'', ''.'', ''m'', ''3'', ''u'', ''8'', ''?tok=1'']
     # re_matches pattern_bare (DQ # post)"
proof -
  have "re_matches pattern_bare (DQ # example_url @ DQ # post)
        = re_matches pattern_bare (example_url @ DQ # post)"
    by (simp add: bare_at_dq)
  also have "\<dots> = [''h'', ''t'', ''t'', ''p'', ''s'', '':'', ''/'', ''/'',
      ''cdn.example.com/stream'', ''.'', ''m'', ''3'', ''u'', ''8'', ''?tok=1'']
     # re_matches pattern_bare (DQ # post)"
    using bare_at_url [of post] by (simp add: example_url_def)
  finally show ?thesis .
qed

lemma groups_bare:
  "groups pattern_bare [''h'', ''t'', ''t'', ''p'', ''s'', '':'', ''/'', ''/'',
      ''cdn.example.com/stream'', ''.'', ''m'', ''3'', ''u'', ''8'', ''?tok=1''] = []"
  by (simp add: pattern_bare_def litsI_def)

lemma concat_pieces:
  "concat [''h'', ''t'', ''t'', ''p'', ''s'', '':'', ''/'', ''/'',
      ''cdn.example.com/stream'', ''.'', ''m'', ''3'', ''u'', ''8'', ''?tok=1''] = example_url"
  by (simp add: example_url_def)

lemma findall_example:
  assumes "CHR '':'' \<notin> set pre"
  shows "\<exists>rest. re_findall pattern_bare (pre @ [DQ] @ example_url @ [DQ] @ post) = example_url # rest"
proof -
  have e: "pre @ [DQ] @ example_url @ [DQ] @ post = pre @ DQ # example_url @ DQ # post"
    by simp
  have "re_matches pattern_bare (pre @ DQ # example_url @ DQ # post)
        = re_matches pattern_bare (DQ # example_url @ DQ # post)"
    using assms by (rule matches_skip)
  then have "re_findall pattern_bare (pre @ [DQ] @ example_url @ [DQ] @ post)
      = example_url # re_findall pattern_bare (DQ # post)"
    unfolding e re_findall_def matches_at_url
    by (simp only: list.map groups_bare list.case concat_pieces)
  then show ?thesis by blast
qed

text \<open>
  Claim C9. With no request observed and no preferred domain, a page whose content
  holds the example address between double quotes yields exactly that address, query
  parameter included and quotes excluded. The literal may stand anywhere in the
  content, after any text that has no colon.
\<close>

theorem scan_embedded_literal:
  assumes "CHR '':'' \<notin> set pre"
  shows "snd (extract_m3u8_from_page url None [] (Loaded (pre @ [DQ] @ example_url @ [DQ] @ post)))
         = Inr (Some example_url)"
proof -
  let ?c = "pre @ [DQ] @ example_url @ [DQ] @ post"
  obtain rest where r: "re_findall pattern_bare ?c = example_url # rest"
    using findall_example [OF assms] by blast
  have a: "add_match [] example_url = [example_url]"
    by (simp add: add_match_def trim_example)
  obtain t where t: "foldl add_match [example_url] rest = [example_url] @ t"
    using foldl_add_match_app by blast
  obtain t' where t': "foldl (\<lambda>urls pattern. foldl add_match urls (re_findall pattern ?c))
        ([example_url] @ t) [pattern_quoted DQ, pattern_quoted SQ] = ([example_url] @ t) @ t'"
    using scan_fold_app by blast
  have "scan_content ?c [] = example_url # t @ t'"
    using r a t t' by (simp add: scan_content_def patterns_def)
  then show ?thesis
    by (simp add: extract_m3u8_from_page_def found_def select_url_def)
qed

theorem scan_embedded_literal_witness:
  "snd (extract_m3u8_from_page ''https://site/live'' None []
          (Loaded (''<script>var u = '' @ [DQ] @ example_url @ [DQ] @ '';</script>'')))
   = Inr (Some example_url)"
  using scan_embedded_literal [of "''<script>var u = ''" "''https://site/live''" "'';</script>''"]
  by simp

section \<open>The candidate list\<close>

lemma handle_requests_filter:
  "foldl handle_request urls requests = urls @ filter (sublist ''.m3u8'') requests"
  by (induction requests arbitrary: urls) (simp_all add: handle_request_def)

lemma add_match_distinct: "distinct urls \<Longrightarrow> distinct (add_match urls m)"
  by (simp add: add_match_def Let_def)

lemma foldl_add_match_distinct: "distinct urls \<Longrightarrow> distinct (foldl add_match urls ms)"
  by (induction ms arbitrary: urls) (simp_all add: add_match_distinct)

lemma scan_fold_distinct:
  "distinct urls \<Longrightarrow>
   distinct (foldl (\<lambda>urls pattern. foldl add_match urls (re_findall pattern content)) urls pats)"
  by (induction pats arbitrary: urls) (simp_all add: foldl_add_match_distinct)

lemma scan_content_distinct: "distinct urls \<Longrightarrow> distinct (scan_content content urls)"
  unfolding scan_content_def by (rule scan_fold_distinct)

lemma step_distinct:
  "distinct urls \<Longrightarrow> (case c of Request u \<Rightarrow> u \<notin> set urls | Scan content \<Rightarrow> True)
   \<Longrightarrow> distinct (collector_step urls c)"
  by (cases c) (simp_all add: handle_request_def scan_content_distinct)

lemma run_distinct:
  "distinct urls \<Longrightarrow> requests_fresh urls calls \<Longrightarrow> distinct (foldl collector_step urls calls)"
proof (induction calls arbitrary: urls)
  case Nil then show ?case by simp
next
  case (Cons c calls)
  from Cons.prems have "distinct (collector_step urls c)" by (simp add: step_distinct)
  moreover from Cons.prems have "requests_fresh (collector_step urls c) calls" by simp
  ultimately show ?case using Cons.IH by simp
qed

text \<open>
  Claim C1, as stated, fails: the observer appends every URL that contains the marker,
  also one that is in the list already. Reporting the same request twice gives a list
  with two equal entries.
\<close>

theorem observer_appends_duplicate:
  "\<not> distinct (collect [Request ''http://a/x.m3u8'', Request ''http://a/x.m3u8''])"
  by (simp add: collect_def handle_request_def sublist_Cons_right)

text \<open>
  Claim C1, amended. The content scan appends a URL only if it is not in the list, so
  for every sequence of calls in which no request is reported while its URL is already
  present, the candidate list has no two equal entries.
\<close>

theorem scan_never_duplicates:
  "requests_fresh [] calls \<Longrightarrow> distinct (collect calls)"
  unfolding collect_def by (rule run_distinct) simp

theorem scan_never_duplicates_witness:
  "requests_fresh [] [Request ''http://a/x.m3u8'', Scan ([DQ] @ ''http://a/x.m3u8'' @ [DQ]),
       Scan ([SQ] @ ''http://b/y.m3u8'' @ [SQ, CHR '';''])]
   \<and> distinct (collect [Request ''http://a/x.m3u8'', Scan ([DQ] @ ''http://a/x.m3u8'' @ [DQ]),
       Scan ([SQ] @ ''http://b/y.m3u8'' @ [SQ, CHR '';''])])"
proof -
  have h: "requests_fresh [] [Request ''http://a/x.m3u8'',
       Scan ([DQ] @ ''http://a/x.m3u8'' @ [DQ]), Scan ([SQ] @ ''http://b/y.m3u8'' @ [SQ, CHR '';''])]"
    by code_simp
  from h scan_never_duplicates [OF h] show ?thesis by blast
qed

section \<open>A navigation timeout\<close>

text \<open>
  Claim C3, as stated, fails: the scan of the content is inside the \<open>try\<close> block, after
  the navigation, so a timeout skips it. A page that would yield the example address
  through the scan yields nothing when the navigation times out.
\<close>

theorem timeout_result_differs:
  "snd (extract_m3u8_from_page ''https://site/live'' None [] TimedOut) = Inr None
   \<and> snd (extract_m3u8_from_page ''https://site/live'' None []
            (Loaded ([DQ] @ ''https://cdn.example.com/stream.m3u8?tok=1'' @ [DQ])))
       = Inr (Some ''https://cdn.example.com/stream.m3u8?tok=1'')"
  by code_simp

text \<open>
  Claim C3, amended. A navigation timeout does not abort the discovery: the timeout is
  printed on the error stream and the function returns the selection among the URLs
  that the observer collected, that is the reported requests that contain the marker;
  the content is not scanned.
\<close>

theorem timeout_skips_scan:
  "\<exists>out. extract_m3u8_from_page url pd requests TimedOut
            = (out, Inr (select_url (filter (sublist ''.m3u8'') requests) pd))
          \<and> Line Stderr ''Timeout while loading page'' \<in> set out"
  by (cases "select_url (filter (sublist ''.m3u8'') requests) pd")
     (simp_all add: extract_m3u8_from_page_def found_def handle_requests_filter [of "[]", simplified])

section \<open>Entry lookup by the end of the metadata line\<close>

text \<open>
  Claim C10. The lookup accepts any metadata line that ends with a comma and the entry
  name. A playlist whose only channel is named \<open>Breaking,News\<close> is patched by an update
  of the entry \<open>News\<close>.
\<close>

theorem suffix_name_is_matched:
  "''Breaking,News'' \<noteq> ''News''
   \<and> update_m3u_file NoFault (create_output [(''Breaking,News'', ''http://old/x.m3u8'')])
       ''http://new/y.m3u8'' ''News''
     = (Returned True, create_output [(''Breaking,News'', ''http://new/y.m3u8'')],
        [Line Stdout ''Updated News URL:'', Line Stdout ''  Old: http://old/x.m3u8'',
         Line Stdout ''  New: http://new/y.m3u8''])"
  by code_simp

section \<open>The matcher on the entry pattern\<close>

lemma bt_lits:
  "bt (lits w @ r) s =
     (if prefix w s then map_option (\<lambda>ps. map (\<lambda>c. [c]) w @ ps) (bt r (drop (length w) s))
      else None)"
proof (induction w arbitrary: s)
  case Nil
  show ?case by (cases "bt r s") (simp_all add: lits_def)
next
  case (Cons c w)
  show ?case
  proof (cases s)
    case Nil then show ?thesis by (simp add: lits_def)
  next
    case (Cons x xs)
    with Cons.IH [of xs] show ?thesis
      by (auto simp: lits_def option.map_comp comp_def)
  qed
qed






lemma bt_lits_none: "\<not> prefix w s \<Longrightarrow> bt (lits w @ r) s = None"
  by (simp add: bt_lits)













































section \<open>Patching the playlist\<close>















section \<open>Parsing a URL and putting it back together\<close>

lemma unsafe_c0: "c \<in> set unsafe_url_bytes \<Longrightarrow> c0_control_or_space c"
  by (auto simp: unsafe_url_bytes_def c0_control_or_space_def)

lemma clean_safe: "c \<in> set (clean x) \<Longrightarrow> c \<notin> set unsafe_url_bytes"
  by (simp add: clean_def)

lemma clean_head: "clean x = [] \<or> \<not> c0_control_or_space (hd (clean x))"
proof (cases "dropWhile c0_control_or_space x")
  case Nil then show ?thesis unfolding clean_def Nil by simp
next
  case (Cons a d)
  then have "\<not> c0_control_or_space a" using hd_dropWhile [of c0_control_or_space x] by auto
  then have "a \<notin> set unsafe_url_bytes" using unsafe_c0 by blast
  with Cons \<open>\<not> c0_control_or_space a\<close> show ?thesis by (simp add: clean_def)
qed

lemma clean_id:
  assumes "\<forall>c\<in>set u. c \<notin> set unsafe_url_bytes" "u = [] \<or> \<not> c0_control_or_space (hd u)"
  shows "clean u = u"
proof -
  have "dropWhile c0_control_or_space u = u" using assms(2) by (cases u) auto
  moreover have "filter (\<lambda>c. c \<notin> set unsafe_url_bytes) u = u" using assms(1) by (simp add: filter_id_conv)
  ultimately show ?thesis by (simp add: clean_def)
qed

lemma lower_scheme_char: "x \<in> set scheme_chars \<Longrightarrow> ascii_lower x \<in> set scheme_chars"
proof -
  have "\<forall>x\<in>set scheme_chars. ascii_lower x \<in> set scheme_chars" by code_simp
  then show "x \<in> set scheme_chars \<Longrightarrow> ascii_lower x \<in> set scheme_chars" by blast
qed

lemma lower_letter: "x \<in> set ascii_letters \<Longrightarrow> ascii_lower x \<in> set ascii_letters"
proof -
  have "\<forall>x\<in>set ascii_letters. ascii_lower x \<in> set ascii_letters" by code_simp
  then show "x \<in> set ascii_letters \<Longrightarrow> ascii_lower x \<in> set ascii_letters" by blast
qed

lemma lower_idem_scheme: "x \<in> set scheme_chars \<Longrightarrow> ascii_lower (ascii_lower x) = ascii_lower x"
proof -
  have "\<forall>x\<in>set scheme_chars. ascii_lower (ascii_lower x) = ascii_lower x" by code_simp
  then show "x \<in> set scheme_chars \<Longrightarrow> ascii_lower (ascii_lower x) = ascii_lower x" by blast
qed

lemma scheme_char_plain:
  "x \<in> set scheme_chars \<Longrightarrow> x \<noteq> CHR '':'' \<and> x \<noteq> CHR ''/'' \<and> \<not> c0_control_or_space x"
proof -
  have "\<forall>x\<in>set scheme_chars. x \<noteq> CHR '':'' \<and> x \<noteq> CHR ''/'' \<and> \<not> c0_control_or_space x"
    by code_simp
  then show "x \<in> set scheme_chars \<Longrightarrow> x \<noteq> CHR '':'' \<and> x \<noteq> CHR ''/'' \<and> \<not> c0_control_or_space x"
    by blast
qed

lemma letter_scheme_char: "x \<in> set ascii_letters \<Longrightarrow> x \<in> set scheme_chars"
  by (simp add: scheme_chars_def)

lemma slash_not_letter: "CHR ''/'' \<notin> set ascii_letters"
  by (simp add: ascii_letters_def)

lemma split_scheme_cases:
  assumes "split_scheme u = (s, r)"
  shows "(s = [] \<and> r = u) \<or> (valid_scheme s \<and> (\<exists>s0. u = s0 @ CHR '':'' # r \<and> s = map ascii_lower s0))"
proof (cases "before (CHR '':'') u")
  case Nil
  with assms show ?thesis by (simp add: split_scheme_def)
next
  case (Cons c cs)
  let ?C = "CHR '':'' \<in> set u \<and> c \<in> set ascii_letters \<and> (\<forall>x \<in> set (c # cs). x \<in> set scheme_chars)"
  have eq: "(if ?C then (map ascii_lower (c # cs), after (CHR '':'') u) else ([], u)) = (s, r)"
    using assms unfolding split_scheme_def Cons by (simp only: list.case)
  show ?thesis
  proof (cases ?C)
    case False
    then have "(if ?C then (map ascii_lower (c # cs), after (CHR '':'') u) else ([], u))
        = ([], u)" by (rule if_not_P)
    with eq have "([], u) = (s, r)" by (simp only:)
    then show ?thesis by simp
  next
    case True
    then have "(if ?C then (map ascii_lower (c # cs), after (CHR '':'') u) else ([], u))
        = (map ascii_lower (c # cs), after (CHR '':'') u)" by (rule if_P)
    with eq have "(map ascii_lower (c # cs), after (CHR '':'') u) = (s, r)" by (simp only:)
    then have s: "s = map ascii_lower (c # cs)" and r: "r = after (CHR '':'') u" by simp_all
    from True have "dropWhile (\<lambda>x. x \<noteq> CHR '':'') u \<noteq> []" by (simp add: dropWhile_eq_Nil_conv)
    then obtain d where d: "dropWhile (\<lambda>x. x \<noteq> CHR '':'') u = CHR '':'' # d"
      using hd_dropWhile [of "\<lambda>x. x \<noteq> CHR '':''" u]
      by (cases "dropWhile (\<lambda>x. x \<noteq> CHR '':'') u") auto
    have "u = takeWhile (\<lambda>x. x \<noteq> CHR '':'') u @ dropWhile (\<lambda>x. x \<noteq> CHR '':'') u" by simp
    with d Cons r have u: "u = (c # cs) @ CHR '':'' # r" by (simp add: before_def after_def)
    have "valid_scheme s"
      unfolding valid_scheme_def s using True
      by (auto simp: lower_letter lower_scheme_char lower_idem_scheme)
    with u s show ?thesis by blast
  qed
qed

lemma split_scheme_valid:
  assumes "valid_scheme s"
  shows "split_scheme (s @ CHR '':'' # r) = (s, r)"
proof -
  from assms obtain c cs where s: "s = c # cs" by (cases s) (auto simp: valid_scheme_def)
  have nc: "\<forall>x\<in>set s. x \<noteq> CHR '':''" using assms scheme_char_plain by (auto simp: valid_scheme_def)
  then have b: "before (CHR '':'') (s @ CHR '':'' # r) = s"
    by (simp add: before_def takeWhile_append2)
  from nc have a: "after (CHR '':'') (s @ CHR '':'' # r) = r"
    by (simp add: after_def dropWhile_append2)
  from assms s have "c \<in> set ascii_letters" "\<forall>x\<in>set (c # cs). x \<in> set scheme_chars"
    "map ascii_lower (c # cs) = c # cs"
    by (auto simp: valid_scheme_def)
  with b a s show ?thesis by (simp add: split_scheme_def)
qed

lemma split_scheme_prefix:
  assumes "split_scheme u = ([], u)" "prefix p u"
  shows "split_scheme p = ([], p)"
proof (cases "CHR '':'' \<in> set p")
  case False
  then show ?thesis by (auto simp: split_scheme_def split: list.splits)
next
  case True
  from assms(2) obtain q where u: "u = p @ q" by (auto simp: prefix_def)
  from True have b: "before (CHR '':'') u = before (CHR '':'') p"
    unfolding u before_def by (intro takeWhile_append1 [of "CHR '':''"]) simp_all
  from True u have cu: "CHR '':'' \<in> set u" by simp
  have "fst (split_scheme u) = [] " using assms(1) by simp
  show ?thesis
  proof (cases "before (CHR '':'') p")
    case Nil then show ?thesis by (simp add: split_scheme_def)
  next
    case (Cons c cs)
    with assms(1) b cu have "\<not> (c \<in> set ascii_letters \<and> (\<forall>x \<in> set (c # cs). x \<in> set scheme_chars))"
      by (auto simp: split_scheme_def split: if_splits)
    with Cons show ?thesis by (auto simp: split_scheme_def)
  qed
qed

lemma split_scheme_slash: "split_scheme (CHR ''/'' # r) = ([], CHR ''/'' # r)"
  by (simp add: split_scheme_def before_def ascii_letters_def)

lemma split_scheme_nil: "split_scheme [] = ([], [])"
  by (simp add: split_scheme_def before_def)

lemma before_all: "c \<notin> set u \<Longrightarrow> before c u = u"
  by (auto simp: before_def takeWhile_eq_all_conv)

lemma urlparse_elim:
  assumes "urlparse is_ipv6 x = Inr r"
  shows "\<exists>u2 u3. split_scheme (clean x) = (scheme r, u2) \<and> netloc_split u2 = (netloc r, u3)
           \<and> brackets_ok is_ipv6 (netloc r) \<and> path r = deparam (scheme r) (path_of u3)"
proof -
  obtain s u2 where s: "split_scheme (clean x) = (s, u2)" by (cases "split_scheme (clean x)")
  obtain n u3 where n: "netloc_split u2 = (n, u3)" by (cases "netloc_split u2")
  have p: "path_of u3 = (let url4 = (if CHR ''#'' \<in> set u3 then before (CHR ''#'') u3 else u3)
              in if CHR ''?'' \<in> set url4 then before (CHR ''?'') url4 else url4)"
    by (auto simp: path_of_def Let_def before_all)
  from assms s n have "brackets_ok is_ipv6 n \<and> scheme r = s \<and> netloc r = n
      \<and> path r = deparam s (path_of u3)"
    unfolding urlparse_def urlsplit_def clean_def [symmetric] netloc_split_def [symmetric] p
    by (auto simp: Let_def brackets_ok_def deparam_def split: if_splits prod.splits)
  with s n show ?thesis by blast
qed

lemma urlparse_intro:
  assumes "split_scheme (clean y) = (s, u2)" "netloc_split u2 = (n, u3)" "brackets_ok is_ipv6 n"
    and "CHR ''#'' \<notin> set u3" "CHR ''?'' \<notin> set u3"
    and "s \<in> set uses_params \<and> CHR '';'' \<in> set u3 \<longrightarrow> splitparams u3 = (u3, [])"
  shows "urlparse is_ipv6 y = Inr \<lparr>scheme = s, netloc = n, path = u3, params = [], query = [],
           fragment = []\<rparr>"
  using assms
  unfolding urlparse_def urlsplit_def clean_def [symmetric] netloc_split_def [symmetric]
  by (auto simp: Let_def brackets_ok_def)

lemma rfind_slash_last: "CHR ''/'' \<notin> set b \<Longrightarrow> rfind_slash (a @ CHR ''/'' # b) = length a"
proof -
  assume "CHR ''/'' \<notin> set b"
  then have "takeWhile (\<lambda>c. c \<noteq> CHR ''/'') (rev b @ CHR ''/'' # rev a) = rev b"
    by (subst takeWhile_append2) auto
  then show ?thesis by (simp add: rfind_slash_def)
qed

lemma last_slash: "CHR ''/'' \<in> set u \<Longrightarrow> \<exists>a b. u = a @ CHR ''/'' # b \<and> CHR ''/'' \<notin> set b"
  by (rule split_list_last)

lemma before_take: "take (length (before c b)) b = before c b"
  unfolding before_def by (rule takeWhile_eq_take [symmetric])

lemma before_Cons: "before c (x # xs) = (if x = c then [] else x # before c xs)"
  by (simp add: before_def)

lemma before_clean: "c \<notin> set (before c u)"
  unfolding before_def by (induction u) auto

lemma before_prefix: "prefix (before c u) u"
  unfolding before_def by (metis prefixI takeWhile_dropWhile_id)

lemma splitparams_slash:
  assumes "CHR ''/'' \<notin> set b"
  shows "splitparams (a @ CHR ''/'' # b) =
     (if CHR '';'' \<in> set b then (a @ CHR ''/'' # before (CHR '';'') b,
                                   drop (Suc (length a + Suc (length (before (CHR '';'') b))))
                                     (a @ CHR ''/'' # b))
      else (a @ CHR ''/'' # b, []))"
  using assms
  by (simp add: splitparams_def rfind_slash_last Let_def before_Cons before_take)

lemma splitparams_keep: "no_params p \<Longrightarrow> CHR '';'' \<in> set p \<Longrightarrow> splitparams p = (p, [])"
  by (simp add: no_params_def splitparams_def Let_def)

lemma deparam_other: "s \<notin> set uses_params \<Longrightarrow> deparam s p = p"
  by (simp add: deparam_def)

lemma deparam_shape:
  "deparam s p = p \<and> (s \<in> set uses_params \<longrightarrow> CHR '';'' \<notin> set p)
   \<or> (\<exists>a b. p = a @ CHR ''/'' # b \<and> CHR ''/'' \<notin> set b
         \<and> deparam s p = a @ CHR ''/'' # before (CHR '';'') b)
   \<or> (CHR ''/'' \<notin> set p \<and> deparam s p = before (CHR '';'') p)"
proof (cases "s \<in> set uses_params \<and> CHR '';'' \<in> set p")
  case False
  then show ?thesis by (auto simp: deparam_def)
next
  case True
  show ?thesis
  proof (cases "CHR ''/'' \<in> set p")
    case False
    with True show ?thesis by (simp add: deparam_def splitparams_def)
  next
    case sl: True
    from last_slash [OF sl] obtain a b where ab: "p = a @ CHR ''/'' # b" "CHR ''/'' \<notin> set b"
      by blast
    have "deparam s p = a @ CHR ''/'' # before (CHR '';'') b"
      using True ab by (auto simp: deparam_def splitparams_slash before_all)
    with ab show ?thesis by blast
  qed
qed

lemma no_params_slash:
  "CHR ''/'' \<notin> set b \<Longrightarrow> CHR '';'' \<notin> set b \<Longrightarrow> no_params (a @ CHR ''/'' # b)"
  by (simp add: no_params_def rfind_slash_last)

lemma deparam_no_params: "s \<in> set uses_params \<Longrightarrow> no_params (deparam s p)"
proof -
  assume s: "s \<in> set uses_params"
  from deparam_shape [of s p] show ?thesis
  proof (elim disjE exE conjE)
    assume "deparam s p = p" "s \<in> set uses_params \<longrightarrow> CHR '';'' \<notin> set p"
    with s show ?thesis by (simp add: no_params_def)
  next
    fix a b assume "p = a @ CHR ''/'' # b" "CHR ''/'' \<notin> set b"
      "deparam s p = a @ CHR ''/'' # before (CHR '';'') b"
    moreover have "CHR ''/'' \<notin> set (before (CHR '';'') b)"
      using \<open>CHR ''/'' \<notin> set b\<close> before_prefix [of "CHR '';''" b] set_mono_prefix by fastforce
    ultimately show ?thesis using before_clean [of "CHR '';''" b] by (simp add: no_params_slash)
  next
    assume "deparam s p = before (CHR '';'') p"
    then show ?thesis using before_clean [of "CHR '';''" p] by (simp add: no_params_def)
  qed
qed

lemma deparam_prefix: "prefix (deparam s p) p"
  using deparam_shape [of s p] before_prefix [of "CHR '';''"]
  by (auto simp: prefix_def)

lemma deparam_head:
  assumes "p \<noteq> []" "hd p = CHR ''/''"
  shows "deparam s p \<noteq> [] \<and> hd (deparam s p) = CHR ''/''"
proof -
  from assms have "CHR ''/'' \<in> set p" using hd_in_set [of p] by simp
  with deparam_shape [of s p] assms show ?thesis
    by (elim disjE exE conjE) (auto simp: hd_append split: if_splits)
qed

lemma netloc_split_props:
  assumes "netloc_split u2 = (n, u3)"
  shows "(\<forall>c\<in>set n. c \<notin> set ''/?#'')" and "set n \<subseteq> set u2" and "set u3 \<subseteq> set u2"
    and "take 2 u2 = ''//'' \<Longrightarrow> u3 = [] \<or> hd u3 \<in> set ''/?#''"
    and "take 2 u2 \<noteq> ''//'' \<Longrightarrow> n = [] \<and> u3 = u2"
proof -
  let ?P = "\<lambda>c. c \<notin> set ''/?#''"
  have c: "(take 2 u2 = ''//'' \<and> n = takeWhile ?P (drop 2 u2) \<and> u3 = dropWhile ?P (drop 2 u2))
           \<or> (take 2 u2 \<noteq> ''//'' \<and> n = [] \<and> u3 = u2)"
    using assms unfolding netloc_split_def splitnetloc_def by (cases "take 2 u2 = ''//''") simp_all
  have d: "set (drop 2 u2) \<subseteq> set u2" by (rule set_drop_subset)
  have t: "set (takeWhile ?P (drop 2 u2)) \<subseteq> set (drop 2 u2)"
    using set_takeWhileD [of _ ?P "drop 2 u2"] by blast
  have w: "set (dropWhile ?P (drop 2 u2)) \<subseteq> set (drop 2 u2)"
    using set_dropWhileD [of _ ?P "drop 2 u2"] by blast
  have p: "\<forall>c\<in>set (takeWhile ?P (drop 2 u2)). ?P c"
    using set_takeWhileD [of _ ?P "drop 2 u2"] by blast
  have h: "dropWhile ?P (drop 2 u2) = [] \<or> \<not> ?P (hd (dropWhile ?P (drop 2 u2)))"
    using hd_dropWhile [of ?P "drop 2 u2"] by blast
  from c show "\<forall>c\<in>set n. c \<notin> set ''/?#''"
  proof (elim disjE conjE)
    assume "n = takeWhile ?P (drop 2 u2)" with p show ?thesis by (simp only:)
  next
    assume "n = []" then show ?thesis by simp
  qed
  from c show "set n \<subseteq> set u2"
  proof (elim disjE conjE)
    assume "n = takeWhile ?P (drop 2 u2)" with t d show ?thesis by blast
  next
    assume "n = []" then show ?thesis by simp
  qed
  from c show "set u3 \<subseteq> set u2"
  proof (elim disjE conjE)
    assume "u3 = dropWhile ?P (drop 2 u2)" with w d show ?thesis by blast
  next
    assume "u3 = u2" then show ?thesis by simp
  qed
  show "u3 = [] \<or> hd u3 \<in> set ''/?#''" if "take 2 u2 = ''//''"
  proof -
    from c that have "u3 = dropWhile ?P (drop 2 u2)" by blast
    with h show ?thesis by (simp only: not_not)
  qed
  show "n = [] \<and> u3 = u2" if "take 2 u2 \<noteq> ''//''"
    using c that by blast
qed


lemma netloc_split_build:
  assumes "\<forall>c\<in>set n. c \<notin> set ''/?#''" "sp = [] \<or> hd sp = CHR ''/''"
  shows "netloc_split (''//'' @ n @ sp) = (n, sp)"
proof -
  let ?P = "\<lambda>c. c \<notin> set ''/?#''"
  have "takeWhile ?P (n @ sp) = n" using assms
    by (cases sp) (auto simp: takeWhile_append2 takeWhile_eq_all_conv)
  moreover have "dropWhile ?P (n @ sp) = sp" using assms
    by (cases sp) (auto simp: dropWhile_append2 dropWhile_eq_Nil_conv)
  ultimately show ?thesis by (simp add: netloc_split_def splitnetloc_def)
qed

lemma path_of_props:
  shows "CHR ''?'' \<notin> set (path_of u)" and "CHR ''#'' \<notin> set (path_of u)" and "prefix (path_of u) u"
    and "u = [] \<or> hd u \<in> set ''/?#'' \<Longrightarrow> path_of u = [] \<or> hd (path_of u) = CHR ''/''"
proof -
  show "CHR ''?'' \<notin> set (path_of u)" unfolding path_of_def by (rule before_clean)
  have "prefix (path_of u) (before (CHR ''#'') u)" unfolding path_of_def by (rule before_prefix)
  then show "prefix (path_of u) u" using before_prefix [of "CHR ''#''" u] by (rule prefix_order.trans)
  from \<open>prefix (path_of u) (before (CHR ''#'') u)\<close>
  show "CHR ''#'' \<notin> set (path_of u)" using before_clean [of "CHR ''#''" u] set_mono_prefix by fastforce
  show "u = [] \<or> hd u \<in> set ''/?#'' \<Longrightarrow> path_of u = [] \<or> hd (path_of u) = CHR ''/''"
    by (cases u) (auto simp: path_of_def before_Cons before_def)
qed

lemma scheme_safe:
  assumes "valid_scheme s" "c \<in> set s"
  shows "c \<notin> set unsafe_url_bytes"
  using assms scheme_char_plain unsafe_c0 unfolding valid_scheme_def by blast

lemma take2_prefix:
  assumes "prefix p u" "take 2 p = ''//''"
  shows "take 2 u = ''//''"
proof -
  from assms(1) obtain q where "u = p @ q" by (auto simp: prefix_def)
  moreover from assms(2) obtain r where "p = ''//'' @ r"
    by (metis append_take_drop_id)
  ultimately show ?thesis by simp
qed

lemma parse_components:
  assumes "urlparse is_ipv6 x = Inr r"
  shows "wf_parts is_ipv6 (scheme r) (netloc r) (path r)"
proof -
  let ?s = "scheme r" and ?n = "netloc r" and ?p = "path r"
  from urlparse_elim [OF assms] obtain u2 u3 where
    ss: "split_scheme (clean x) = (?s, u2)" and ns: "netloc_split u2 = (?n, u3)"
    and bo: "brackets_ok is_ipv6 ?n" and pp: "?p = deparam ?s (path_of u3)"
    by blast
  let ?q = "path_of u3"
  have pre: "prefix ?p ?q" using deparam_prefix [of ?s ?q] pp by simp
  have pre3: "prefix ?q u3" by (rule path_of_props)
  have sub: "set ?p \<subseteq> set u3"
    using pre pre3 set_mono_prefix by (meson order_trans)
  from split_scheme_cases [OF ss]
  have sc: "(?s = [] \<and> u2 = clean x) \<or>
            (valid_scheme ?s \<and> (\<exists>s0. clean x = s0 @ CHR '':'' # u2 \<and> ?s = map ascii_lower s0))" .
  then have u2sub: "set u2 \<subseteq> set (clean x)" by auto
  have safe2: "\<forall>c\<in>set u2. c \<notin> set unsafe_url_bytes" using u2sub clean_safe by blast
  have 1: "\<forall>c\<in>set (?s @ ?n @ ?p). c \<notin> set unsafe_url_bytes"
  proof
    fix c assume "c \<in> set (?s @ ?n @ ?p)"
    then consider "c \<in> set ?s" | "c \<in> set ?n" | "c \<in> set ?p" by auto
    then show "c \<notin> set unsafe_url_bytes"
    proof cases
      case 1
      with sc have "valid_scheme ?s" by auto
      then show ?thesis using 1 by (rule scheme_safe)
    next
      case 2
      with netloc_split_props(2) [OF ns] safe2 show ?thesis by blast
    next
      case 3
      with sub netloc_split_props(3) [OF ns] safe2 show ?thesis by blast
    qed
  qed
  have 2: "?s = [] \<or> valid_scheme ?s" using sc by blast
  have 3: "\<forall>c\<in>set ?n. c \<notin> set ''/?#''" by (rule netloc_split_props(1) [OF ns])
  have 4: "CHR ''?'' \<notin> set ?p" "CHR ''#'' \<notin> set ?p"
    using pre path_of_props(1,2) [of u3] set_mono_prefix by fastforce+
  have slash: "?p = [] \<or> hd ?p = CHR ''/''" if t: "take 2 u2 = ''//''"
  proof -
    from netloc_split_props(4) [OF ns t] have "?q = [] \<or> hd ?q = CHR ''/''"
      by (rule path_of_props(4))
    then show ?thesis
    proof
      assume "?q = []" with pre show ?thesis by simp
    next
      assume h: "hd ?q = CHR ''/''"
      show ?thesis
      proof (cases "?q = []")
        case True with pre show ?thesis by simp
      next
        case False
        from deparam_head [OF False h, of ?s] pp show ?thesis by simp
      qed
    qed
  qed
  have 5: "?n \<noteq> [] \<longrightarrow> ?p = [] \<or> hd ?p = CHR ''/''"
  proof
    assume "?n \<noteq> []"
    with netloc_split_props(5) [OF ns] have "take 2 u2 = ''//''" by blast
    then show "?p = [] \<or> hd ?p = CHR ''/''" by (rule slash)
  qed
  have 7: "?s \<in> set uses_params \<longrightarrow> no_params ?p"
    using deparam_no_params [of ?s ?q] pp by simp
  have 8: "?s = [] \<and> ?n = [] \<longrightarrow> ?p = [] \<or> hd ?p = CHR ''/''
           \<or> (split_scheme ?p = ([], ?p) \<and> \<not> c0_control_or_space (hd ?p) \<and> take 2 ?p \<noteq> ''//'')"
  proof
    assume a: "?s = [] \<and> ?n = []"
    with sc have u2: "u2 = clean x" by (auto simp: valid_scheme_def)
    show "?p = [] \<or> hd ?p = CHR ''/''
           \<or> (split_scheme ?p = ([], ?p) \<and> \<not> c0_control_or_space (hd ?p) \<and> take 2 ?p \<noteq> ''//'')"
    proof (cases "take 2 u2 = ''//''")
      case True
      then show ?thesis using slash by blast
    next
      case False
      with netloc_split_props(5) [OF ns] have u3: "u3 = u2" by blast
      from pre pre3 have pu: "prefix ?p (clean x)" unfolding u3 u2 by (rule prefix_order.trans)
      from ss a u2 have "split_scheme (clean x) = ([], clean x)" by simp
      from split_scheme_prefix [OF this pu] have s1: "split_scheme ?p = ([], ?p)" .
      have s3: "take 2 ?p \<noteq> ''//''" using take2_prefix [OF pu] False u2 by blast
      show ?thesis
      proof (cases "?p = []")
        case True then show ?thesis by blast
      next
        case False
        with pu have "hd ?p = hd (clean x)" "clean x \<noteq> []" by (auto simp: prefix_def)
        with clean_head [of x] have "\<not> c0_control_or_space (hd ?p)" by simp
        with s1 s3 show ?thesis by blast
      qed
    qed
  qed
  from 1 2 3 4 5 bo 7 8 show ?thesis unfolding wf_parts_def by blast
qed

lemma unsplit_eq:
  "urlunsplit (s, n, p, [], []) =
     (if s \<noteq> [] then s @ '':'' else [])
     @ (if n \<noteq> [] \<or> (s \<noteq> [] \<and> s \<in> set uses_netloc) \<or> take 2 p = ''//''
        then ''//'' @ n @ slashed s n p else p)"
  by (simp add: urlunsplit_def slashed_def Let_def)

lemma slashed_head: "slashed s n p = p \<or> (slashed s n p = CHR ''/'' # p)"
  by (simp add: slashed_def)

lemma take1_slash: "p \<noteq> [] \<Longrightarrow> (take 1 p = ''/'') = (hd p = CHR ''/'')"
  by (cases p) simp_all

lemma take2_slash: "take 2 p = ''//'' \<Longrightarrow> p \<noteq> [] \<and> hd p = CHR ''/''"
  by (cases p) auto

lemma slashed_starts:
  "n \<noteq> [] \<or> (s \<noteq> [] \<and> s \<in> set uses_netloc) \<or> take 2 p = ''//'' \<Longrightarrow>
   slashed s n p = [] \<or> hd (slashed s n p) = CHR ''/''"
  by (cases p) (auto simp: slashed_def)

lemma slashed_idem: "slashed s n (slashed s n p) = slashed s n p"
  by (cases p) (auto simp: slashed_def)

lemma no_params_slashed: "no_params p \<Longrightarrow> no_params (CHR ''/'' # p)"
proof (cases "CHR '';'' \<in> set p")
  case False
  then show ?thesis by (simp add: no_params_def)
next
  case True
  assume np: "no_params p"
  with True have sl: "CHR ''/'' \<in> set p" and ns: "CHR '';'' \<notin> set (drop (rfind_slash p) p)"
    by (simp_all add: no_params_def)
  from last_slash [OF sl] obtain a b where ab: "p = a @ CHR ''/'' # b" "CHR ''/'' \<notin> set b" by blast
  with ns have "CHR '';'' \<notin> set b" by (simp add: rfind_slash_last)
  with ab(2) have "no_params ((CHR ''/'' # a) @ CHR ''/'' # b)" by (rule no_params_slash)
  with ab(1) show ?thesis by simp
qed

lemma reparse:
  assumes "wf_parts is_ipv6 s n p"
  shows "urlparse is_ipv6 (urlunsplit (s, n, p, [], []))
         = Inr \<lparr>scheme = s, netloc = n, path = slashed s n p, params = [], query = [],
                fragment = []\<rparr>"
proof -
  let ?C = "n \<noteq> [] \<or> (s \<noteq> [] \<and> s \<in> set uses_netloc) \<or> take 2 p = ''//''"
  let ?sp = "slashed s n p"
  let ?body = "if ?C then ''//'' @ n @ ?sp else p"
  let ?y = "urlunsplit (s, n, p, [], [])"
  from assms have
    safe: "\<forall>c\<in>set (s @ n @ p). c \<notin> set unsafe_url_bytes"
    and vs: "s = [] \<or> valid_scheme s"
    and nd: "\<forall>c\<in>set n. c \<notin> set ''/?#''"
    and nq: "CHR ''?'' \<notin> set p" "CHR ''#'' \<notin> set p"
    and bo: "brackets_ok is_ipv6 n"
    and np: "s \<in> set uses_params \<longrightarrow> no_params p"
    and rel: "s = [] \<and> n = [] \<longrightarrow> p = [] \<or> hd p = CHR ''/''
           \<or> (split_scheme p = ([], p) \<and> \<not> c0_control_or_space (hd p) \<and> take 2 p \<noteq> ''//'')"
    unfolding wf_parts_def by blast+
  have y: "?y = (if s \<noteq> [] then s @ '':'' else []) @ ?body" by (rule unsplit_eq)
  have sp_start: "?C \<Longrightarrow> ?sp = [] \<or> hd ?sp = CHR ''/''" by (rule slashed_starts)
  have sp_p: "\<not> ?C \<Longrightarrow> ?sp = p" by (auto simp: slashed_def)
  have sp_set: "set ?sp \<subseteq> insert (CHR ''/'') (set p)" using slashed_head [of s n p] by auto
  have slash_safe: "CHR ''/'' \<notin> set unsafe_url_bytes" "CHR '':'' \<notin> set unsafe_url_bytes"
    by (simp_all add: unsafe_url_bytes_def)
  have slash_c0: "\<not> c0_control_or_space (CHR ''/'')" by (simp add: c0_control_or_space_def)
  have ysafe: "\<forall>c\<in>set ?y. c \<notin> set unsafe_url_bytes"
    unfolding y using safe sp_set slash_safe by (auto split: if_splits)
  have body_head: "s = [] \<Longrightarrow> ?body = [] \<or> \<not> c0_control_or_space (hd ?body)"
    using rel slash_c0 by (auto simp: take2_slash)
  have yhead: "?y = [] \<or> \<not> c0_control_or_space (hd ?y)"
  proof (cases "s = []")
    case True
    with body_head y show ?thesis by simp
  next
    case False
    with vs have "hd s \<in> set ascii_letters" by (simp add: valid_scheme_def)
    then have "\<not> c0_control_or_space (hd s)" using scheme_char_plain letter_scheme_char by blast
    with False y show ?thesis by (simp add: hd_append)
  qed
  have a: "clean ?y = ?y" using ysafe yhead by (rule clean_id)
  have body_scheme: "s = [] \<Longrightarrow> split_scheme ?body = ([], ?body)"
  proof -
    assume s: "s = []"
    show ?thesis
    proof (cases ?C)
      case True
      then show ?thesis by (simp add: split_scheme_slash)
    next
      case False
      with s have "n = []" by simp
      with rel s have "p = [] \<or> hd p = CHR ''/'' \<or> split_scheme p = ([], p)" by blast
      then have "split_scheme p = ([], p)"
        by (cases p) (auto simp: split_scheme_nil split_scheme_slash)
      moreover from False have "?body = p" by (rule if_not_P)
      ultimately show ?thesis by (simp only:)
    qed
  qed
  have b: "split_scheme (clean ?y) = (s, ?body)"
  proof (cases "s = []")
    case True
    with body_scheme y a show ?thesis by simp
  next
    case False
    with vs have "valid_scheme s" by simp
    from split_scheme_valid [OF this, of ?body] y a False show ?thesis by simp
  qed
  have c: "netloc_split ?body = (n, ?sp)"
  proof (cases ?C)
    case True
    from netloc_split_build [OF nd sp_start [OF True]] True show ?thesis by simp
  next
    case False
    then have "n = []" "take 2 p \<noteq> ''//''" by simp_all
    moreover from False have "?body = p" by (rule if_not_P)
    moreover from False have "?sp = p" by (rule sp_p)
    ultimately show ?thesis by (simp only: netloc_split_def if_False)
  qed
  have d: "CHR ''#'' \<notin> set ?sp" "CHR ''?'' \<notin> set ?sp"
    using nq sp_set by auto
  have e: "s \<in> set uses_params \<and> CHR '';'' \<in> set ?sp \<longrightarrow> splitparams ?sp = (?sp, [])"
  proof
    assume h: "s \<in> set uses_params \<and> CHR '';'' \<in> set ?sp"
    with np have "no_params p" by blast
    then have "no_params ?sp" using slashed_head [of s n p] no_params_slashed by auto
    with h show "splitparams ?sp = (?sp, [])" by (simp add: splitparams_keep)
  qed
  from urlparse_intro [OF b c bo d e] show ?thesis .
qed

lemma unsplit_slashed: "urlunsplit (s, n, slashed s n p, [], []) = urlunsplit (s, n, p, [], [])"
proof -
  have "take 2 (slashed s n p) = ''//'' \<longleftrightarrow> take 2 p = ''//''"
    if "\<not> (n \<noteq> [] \<or> (s \<noteq> [] \<and> s \<in> set uses_netloc))"
    using that by (cases p) (auto simp: slashed_def)
  moreover have "take 2 p = ''//'' \<Longrightarrow> slashed s n p = p"
    by (cases p) (auto simp: slashed_def)
  moreover have "slashed s n p = p"
    if "\<not> (n \<noteq> [] \<or> (s \<noteq> [] \<and> s \<in> set uses_netloc) \<or> take 2 p = ''//'')"
    using that by (auto simp: slashed_def)
  ultimately show ?thesis
    unfolding unsplit_eq slashed_idem by auto
qed

lemma strip_roundtrip:
  assumes "urlparse is_ipv6 x = Inr r"
  shows "strip_url_parameters is_ipv6 x = Inr (urlunsplit (scheme r, netloc r, path r, [], []))"
    and "urlparse is_ipv6 (urlunsplit (scheme r, netloc r, path r, [], []))
         = Inr \<lparr>scheme = scheme r, netloc = netloc r,
                path = slashed (scheme r) (netloc r) (path r),
                params = [], query = [], fragment = []\<rparr>"
    and "strip_url_parameters is_ipv6 (urlunsplit (scheme r, netloc r, path r, [], []))
         = Inr (urlunsplit (scheme r, netloc r, path r, [], []))"
proof -
  show 1: "strip_url_parameters is_ipv6 x = Inr (urlunsplit (scheme r, netloc r, path r, [], []))"
    using assms by (simp add: strip_url_parameters_def urlunparse_def)
  show 2: "urlparse is_ipv6 (urlunsplit (scheme r, netloc r, path r, [], []))
         = Inr \<lparr>scheme = scheme r, netloc = netloc r,
                path = slashed (scheme r) (netloc r) (path r),
                params = [], query = [], fragment = []\<rparr>"
    by (rule reparse [OF parse_components [OF assms]])
  show "strip_url_parameters is_ipv6 (urlunsplit (scheme r, netloc r, path r, [], []))
         = Inr (urlunsplit (scheme r, netloc r, path r, [], []))"
    by (simp add: strip_url_parameters_def urlunparse_def 2 unsplit_slashed)
qed



lemma strip_example:
  "strip_url_parameters is_ipv6 ''https://h/p/file.m3u8?s=abc&e=1'' = Inr ''https://h/p/file.m3u8''"
  by (simp add: strip_url_parameters_def urlparse_def urlsplit_def split_scheme_def before_def
        after_def splitnetloc_def urlunparse_def urlunsplit_def uses_params_def uses_netloc_def
        ascii_letters_def scheme_chars_def ascii_lower_def unsafe_url_bytes_def
        c0_control_or_space_def Let_def)


section \<open>The URL normaliser\<close>





text \<open>
  Claim C6, as stated, fails: the parameters of the last path segment are neither the
  query string nor the fragment, and they are removed too.
\<close>

theorem params_are_removed:
  "strip_url_parameters (\<lambda>h. False) ''https://h/p;v=1?q#f'' = Inr ''https://h/p''
   \<and> strip_url_parameters (\<lambda>h. False) ''https://h/p;v=1?q#f'' \<noteq> Inr ''https://h/p;v=1''"
  by code_simp


text \<open>
  Claim C6, amended. \<open>strip_url_parameters\<close> maps the example address to the address
  without its query string. For every URL with a network location, the result parses
  to the same scheme (in lower case), the same network location and the same path as
  the input, with empty parameters, query and fragment.
\<close>

theorem strip_preserves_components:
  "strip_url_parameters is_ipv6 ''https://h/p/file.m3u8?s=abc&e=1'' = Inr ''https://h/p/file.m3u8''
   \<and> (\<forall>r y. urlparse is_ipv6 x = Inr r \<and> netloc r \<noteq> [] \<and> strip_url_parameters is_ipv6 x = Inr y
          \<longrightarrow> urlparse is_ipv6 y = Inr \<lparr>scheme = scheme r, netloc = netloc r, path = path r,
                                        params = [], query = [], fragment = []\<rparr>)"
proof (intro conjI allI impI)
  show "strip_url_parameters is_ipv6 ''https://h/p/file.m3u8?s=abc&e=1'' = Inr ''https://h/p/file.m3u8''"
    by (rule strip_example)
next
  fix r y
  assume h: "urlparse is_ipv6 x = Inr r \<and> netloc r \<noteq> [] \<and> strip_url_parameters is_ipv6 x = Inr y"
  then have p: "urlparse is_ipv6 x = Inr r" and n: "netloc r \<noteq> []" by simp_all
  from h strip_roundtrip(1) [OF p] have y: "y = urlunsplit (scheme r, netloc r, path r, [], [])" by simp
  from parse_components [OF p] n have "path r = [] \<or> hd (path r) = CHR ''/''"
    unfolding wf_parts_def by blast
  then have "slashed (scheme r) (netloc r) (path r) = path r"
    by (cases "path r") (auto simp: slashed_def)
  with strip_roundtrip(2) [OF p] y
  show "urlparse is_ipv6 y = Inr \<lparr>scheme = scheme r, netloc = netloc r, path = path r,
                                        params = [], query = [], fragment = []\<rparr>" by simp
qed


theorem strip_preserves_components_witness:
  "urlparse (\<lambda>h. False) ''HTTPS://User@Example.com:8080/a/b;c=1?q=2#frag''
     = Inr \<lparr>scheme = ''https'', netloc = ''User@Example.com:8080'', path = ''/a/b'',
            params = ''c=1'', query = ''q=2'', fragment = ''frag''\<rparr>
   \<and> ''User@Example.com:8080'' \<noteq> []
   \<and> strip_url_parameters (\<lambda>h. False) ''HTTPS://User@Example.com:8080/a/b;c=1?q=2#frag''
     = Inr ''https://User@Example.com:8080/a/b''
   \<and> urlparse (\<lambda>h. False) ''https://User@Example.com:8080/a/b''
     = Inr \<lparr>scheme = ''https'', netloc = ''User@Example.com:8080'', path = ''/a/b'',
            params = [], query = [], fragment = []\<rparr>"
proof -
  let ?x = "''HTTPS://User@Example.com:8080/a/b;c=1?q=2#frag''"
  let ?r = "\<lparr>scheme = ''https'', netloc = ''User@Example.com:8080'', path = ''/a/b'',
            params = ''c=1'', query = ''q=2'', fragment = ''frag''\<rparr>"
  have a: "urlparse (\<lambda>h. False) ?x = Inr ?r" by code_simp
  have b: "strip_url_parameters (\<lambda>h. False) ?x = Inr ''https://User@Example.com:8080/a/b''"
    by code_simp
  from strip_preserves_components [of "\<lambda>h. False" ?x]
  have "urlparse (\<lambda>h. False) ?x = Inr ?r \<and> netloc ?r \<noteq> []
        \<and> strip_url_parameters (\<lambda>h. False) ?x = Inr ''https://User@Example.com:8080/a/b''
        \<longrightarrow> urlparse (\<lambda>h. False) ''https://User@Example.com:8080/a/b''
            = Inr \<lparr>scheme = scheme ?r, netloc = netloc ?r, path = path ?r,
                   params = [], query = [], fragment = []\<rparr>"
    by blast
  with a b show ?thesis by simp
qed

end
